theory Spec2Isabelle
  imports Complex_Main "HOL-Library.Word"
begin

section \<open>The real-time plotter of the gas flowmeter DAQ\<close>

text \<open>
  A shallow embedding of \<^verbatim>\<open>water_flow_daq_realTimePlot.py\<close>: the class
  \<^verbatim>\<open>RealTimePlot\<close> with its constructor, the acquisition loop
  \<^verbatim>\<open>__get_data\<close> of the worker thread, the slot \<^verbatim>\<open>__update\<close> that maintains
  the display arrays, and \<^verbatim>\<open>__write_to_csv\<close>.

  What lies outside the program text is a parameter of the model:
  \<^item> the serial port is the list of what each pass of the loop finds there
    (\<open>event\<close>), and for the port as the program opens it, the bytes that arrive;
  \<^item> the byte order of the host, which \<^verbatim>\<open>struct.unpack\<close> uses for the format
    strings \<^verbatim>\<open>'I'\<close> and \<^verbatim>\<open>'f'\<close> (they carry no byte-order prefix), is
    \<open>byteorder\<close>;
  \<^item> the window, the plots and the curves are not modelled.
\<close>

subsection \<open>Values\<close>

type_synonym byte = "8 word"

text \<open>\<^verbatim>\<open>sys.byteorder\<close> of the machine that runs the program.\<close>

datatype byteorder = LittleEndian | BigEndian

text \<open>The exceptions that the modelled statements can raise.\<close>

datatype error = IndexError | ZeroDivisionError | StructError | OverflowError

text \<open>
  A single-precision number is kept as its IEEE-754 bit pattern: the model says which
  32 bits \<^verbatim>\<open>struct.unpack('f', ...)\<close> reads, and does no floating-point arithmetic.
\<close>

datatype float32 = Float32 "32 word"

text \<open>
  The list \<^verbatim>\<open>raw_data\<close> holds a Python integer (the time stamp) followed by floats.
\<close>

datatype pyvalue = PyInt int | PyFloat float32

text \<open>The tuple that the signal \<^verbatim>\<open>data_sent\<close> carries: a time and the values.\<close>

type_synonym data = "int \<times> pyvalue list"

text \<open>
  A line of the CSV file: the header written by the constructor, or a data row written
  by \<^verbatim>\<open>__write_to_csv\<close>. The text form of the numbers is not modelled.
\<close>

datatype csv_row = Names "string list" | Row "pyvalue list"

text \<open>
  One pass of the \<^verbatim>\<open>while True\<close> loop sees either \<^verbatim>\<open>in_waiting == 0\<close>
  (\<open>Idle\<close>), or \<^verbatim>\<open>in_waiting > 0\<close> and then the bytes that
  \<^verbatim>\<open>readinto\<close> obtains from the port (\<open>Avail\<close>).
\<close>

datatype event = Idle | Avail "byte list"

subsection \<open>The object\<close>

text \<open>
  The attributes of \<^verbatim>\<open>RealTimePlot\<close> that the modelled methods read or write, under
  their names without the leading underscore. \<open>csv_file\<close> is the file at
  \<^verbatim>\<open>_file_path\<close>: \<open>None\<close> while the program has not created it, otherwise its
  lines. The x values are seconds, \<^verbatim>\<open>current_time / 1000\<close>, kept as exact
  fractions (the rounding to a double is not modelled, its overflow is).
\<close>

record RealTimePlot =
  update_rate :: int
  sensor_rate :: int
  time :: int
  time_from_serial :: bool
  num_of_data :: nat
  max_size :: int
  data_packet :: "byte list"
  datas_x :: "rat list list"
  datas_y :: "pyvalue list list"
  write_to_file :: bool
  csv_file :: "csv_row list option"

subsection \<open>The constructor\<close>

text \<open>
  \<^verbatim>\<open>__init__\<close>, lines 106 to 175. \<^verbatim>\<open>data_set[0]\<close> raises on the empty list.
  The marker of the mode in which the instrument supplies the time is the string
  \<^verbatim>\<open>"time (ms)"\<close>; it is removed from the names. The packet buffer is
  \<^verbatim>\<open>bytearray(24)\<close>, 24 zero bytes. \<^verbatim>\<open>[np.array([])] * n\<close> is n empty arrays
  (they are one object, but \<^verbatim>\<open>np.append\<close> never mutates its argument).
\<close>

definition init :: "string list \<Rightarrow> int \<Rightarrow> int \<Rightarrow> int \<Rightarrow> bool \<Rightarrow> error + RealTimePlot" where
  "init data_set0 ur sr ms wtf =
     (case data_set0 of
        [] \<Rightarrow> Inl IndexError
      | name # rest \<Rightarrow>
          let tfs = (name = ''time (ms)'');
              data_set = (if tfs then rest else data_set0)
          in Inr \<lparr> update_rate = ur,
                   sensor_rate = sr,
                   time = 0,
                   time_from_serial = tfs,
                   num_of_data = length data_set,
                   max_size = ms,
                   data_packet = replicate 24 0,
                   datas_x = replicate (length data_set) [],
                   datas_y = replicate (length data_set) [],
                   write_to_file = wtf,
                   csv_file = (if wtf then Some [Names (''time'' # data_set)] else None) \<rparr>)"

subsection \<open>The display arrays: \<^verbatim>\<open>__update\<close>\<close>

text \<open>
  \<^verbatim>\<open>current_time / 1000\<close> is the true division of two Python integers: the exact
  quotient rounded to the nearest double (ties to even), and \<^verbatim>\<open>OverflowError\<close> when
  that is not a finite double. The largest finite double is \<open>2^1024 - 2^971\<close>, and a
  quotient of magnitude \<open>2^1024 - 2^970\<close> or more rounds beyond it.
\<close>

definition overflows :: "int \<Rightarrow> bool" where
  "overflows current_time \<longleftrightarrow> 1000 * (2 ^ 1024 - 2 ^ 970) \<le> \<bar>current_time\<bar>"

text \<open>
  Lines 189 to 204. \<^verbatim>\<open>zip\<close> stops at the shorter of the y arrays and the values.
  The quotient \<^verbatim>\<open>current_time / 1000\<close> is evaluated once for each x array, after
  \<^verbatim>\<open>_datas_y\<close> has been assigned: when it overflows and there is an x array, the
  slot raises with the y arrays already extended and the x arrays not.
  \<^verbatim>\<open>self._datas_y[0]\<close> raises on an empty list, after both attributes have been
  assigned; \<^verbatim>\<open>a[1:]\<close> is \<open>drop 1\<close>. The only tuple with \<^verbatim>\<open>None\<close> for the time
  in the program is \<^verbatim>\<open>(None, [])\<close>, which is never emitted, so the time is an integer.
\<close>

definition update :: "RealTimePlot \<Rightarrow> data \<Rightarrow> (error \<times> RealTimePlot) + RealTimePlot" where
  "update self d =
     (case d of (current_time, values) \<Rightarrow>
        if values \<noteq> [] then
          let self1 = self\<lparr>datas_y := map (\<lambda>(data_y, v). data_y @ [v]) (zip (datas_y self) values)\<rparr>
          in if datas_x self1 \<noteq> [] \<and> overflows current_time
             then Inl (OverflowError, self1)
             else
               let self2 = self1\<lparr>datas_x := map (\<lambda>data_x. data_x @ [of_int current_time / 1000])
                                                  (datas_x self1)\<rparr>
               in (case datas_y self2 of
                     [] \<Rightarrow> Inl (IndexError, self2)
                   | data_y0 # _ \<Rightarrow>
                       if int (length data_y0) > max_size self2
                       then Inr (self2\<lparr>datas_y := map (drop 1) (datas_y self2),
                                       datas_x := map (drop 1) (datas_x self2)\<rparr>)
                       else Inr self2)
        else Inr self)"

text \<open>
  The slot called once for each emitted tuple, in the order of emission; an exception
  ends the sequence and leaves the object as it was when raised.
\<close>

fun pushes :: "RealTimePlot \<Rightarrow> data list \<Rightarrow> (error \<times> RealTimePlot) + RealTimePlot" where
  "pushes self [] = Inr self"
| "pushes self (d # ds) =
     (case update self d of
        Inl e \<Rightarrow> Inl e
      | Inr self' \<Rightarrow> pushes self' ds)"

text \<open>The object an outcome leaves behind, raised or not.\<close>

definition final :: "(error \<times> RealTimePlot) + RealTimePlot \<Rightarrow> RealTimePlot" where
  "final r = (case r of Inl (e, self) \<Rightarrow> self | Inr self \<Rightarrow> self)"

subsection \<open>Decoding a packet\<close>

text \<open>Python's \<^verbatim>\<open>xs[a:b]\<close> for \<open>0 \<le> a \<le> b\<close>.\<close>

definition slice :: "nat \<Rightarrow> nat \<Rightarrow> 'a list \<Rightarrow> 'a list" where
  "slice a b xs = take (b - a) (drop a xs)"

text \<open>
  The unsigned integer that a byte string denotes in the given byte order: the first
  byte is the least significant one on a little-endian host and the most significant
  one on a big-endian host.
\<close>

definition int_from_bytes :: "byteorder \<Rightarrow> byte list \<Rightarrow> int" where
  "int_from_bytes bo bs =
     (case bo of
        LittleEndian \<Rightarrow> foldr (\<lambda>b acc. uint b + 256 * acc) bs 0
      | BigEndian \<Rightarrow> foldl (\<lambda>acc b. 256 * acc + uint b) 0 bs)"

text \<open>
  \<^verbatim>\<open>struct.unpack('I', bs)[0]\<close> and \<^verbatim>\<open>struct.unpack('f', bs)[0]\<close>: native byte
  order, four bytes each; any other length raises \<^verbatim>\<open>struct.error\<close>.
\<close>

definition unpack_I :: "byteorder \<Rightarrow> byte list \<Rightarrow> error + int" where
  "unpack_I bo bs = (if length bs = 4 then Inr (int_from_bytes bo bs) else Inl StructError)"

definition unpack_f :: "byteorder \<Rightarrow> byte list \<Rightarrow> error + float32" where
  "unpack_f bo bs =
     (if length bs = 4 then Inr (Float32 (word_of_int (int_from_bytes bo bs))) else Inl StructError)"

text \<open>Sequencing of statements that may raise.\<close>

definition and_then :: "error + 'a \<Rightarrow> ('a \<Rightarrow> error + 'b) \<Rightarrow> error + 'b" where
  "and_then r f = (case r of Inl e \<Rightarrow> Inl e | Inr x \<Rightarrow> f x)"

text \<open>
  Lines 234 to 239: the six fields of the packet buffer, in order. The result is the
  time stamp and the five channel values.
\<close>

definition unpack_packet :: "byteorder \<Rightarrow> byte list \<Rightarrow> error + (int \<times> float32 list)" where
  "unpack_packet bo pkt =
     and_then (unpack_I bo (slice 0 4 pkt)) (\<lambda>timeStamp.
     and_then (unpack_f bo (slice 4 8 pkt)) (\<lambda>press1Bar.
     and_then (unpack_f bo (slice 8 12 pkt)) (\<lambda>press2Bar.
     and_then (unpack_f bo (slice 12 16 pkt)) (\<lambda>fm_gps.
     and_then (unpack_f bo (slice 16 20 pkt)) (\<lambda>temp1C.
     and_then (unpack_f bo (slice 20 24 pkt)) (\<lambda>temp2C.
     Inr (timeStamp, [press1Bar, press2Bar, fm_gps, temp1C, temp2C])))))))"

subsection \<open>The log file: \<^verbatim>\<open>__write_to_csv\<close>\<close>

text \<open>Lines 275 and 276: the file is opened in append mode, which creates it when missing.\<close>

definition write_to_csv :: "RealTimePlot \<Rightarrow> pyvalue list \<Rightarrow> RealTimePlot" where
  "write_to_csv self row =
     self\<lparr>csv_file := Some ((case csv_file self of None \<Rightarrow> [] | Some rows \<Rightarrow> rows) @ [Row row])\<rparr>"

subsection \<open>The acquisition loop: \<^verbatim>\<open>__get_data\<close>\<close>

text \<open>
  \<^verbatim>\<open>self._ser.readinto(self._data_packet)\<close>: the port hands over at most as many
  bytes as the buffer holds, and they replace the head of the buffer; the rest of the
  buffer keeps its bytes. An event with fewer bytes than the buffer holds stands for a
  read that returned early; the port as line 128 opens it never does that (see the
  port below), so that the events of a run of the program all carry 24 bytes.
\<close>

definition readinto :: "byte list \<Rightarrow> byte list \<Rightarrow> byte list" where
  "readinto b bs = (let got = take (length b) bs in got @ drop (length got) b)"

text \<open>
  One pass of the loop body, lines 229 to 255, from the object and the local
  \<^verbatim>\<open>count\<close>. It returns the object, the new \<^verbatim>\<open>count\<close> and the tuple emitted with
  \<^verbatim>\<open>data_sent\<close>, if any. \<^verbatim>\<open>//\<close> raises when the divisor is zero, after the row has
  been written.
\<close>

definition get_data_iter ::
  "byteorder \<Rightarrow> RealTimePlot \<Rightarrow> int \<Rightarrow> event \<Rightarrow>
     (error \<times> RealTimePlot) + (RealTimePlot \<times> int \<times> data option)" where
  "get_data_iter bo self count ev =
     (case ev of
        Idle \<Rightarrow> Inr (self, count, None)
      | Avail bs \<Rightarrow>
          let count1 = count + 1;
              self1 = self\<lparr>data_packet := readinto (data_packet self) bs\<rparr>
          in (case unpack_packet bo (data_packet self1) of
                Inl e \<Rightarrow> Inl (e, self1)
              | Inr (timeStamp, floats) \<Rightarrow>
                  let raw_data = PyInt timeStamp # map PyFloat floats;
                      self2 = (if time_from_serial self1 then self1
                               else self1\<lparr>time := time self1 + update_rate self1\<rparr>);
                      d = (if time_from_serial self1 then (timeStamp, map PyFloat floats)
                           else (time self2, raw_data));
                      self3 = (if write_to_file self2 then write_to_csv self2 raw_data else self2)
                  in if sensor_rate self3 = 0 then Inl (ZeroDivisionError, self3)
                     else if count1 = update_rate self3 div sensor_rate self3
                     then Inr (self3, 0, Some d)
                     else Inr (self3, count1, None)))"

text \<open>
  The loop over what the port offers, pass by pass. The loop itself never returns; the
  result after a finite number of passes is the object, \<^verbatim>\<open>count\<close>, and what each
  pass emitted. An exception ends the thread.
\<close>

fun get_data_loop ::
  "byteorder \<Rightarrow> RealTimePlot \<Rightarrow> int \<Rightarrow> event list \<Rightarrow>
     (error \<times> RealTimePlot \<times> data option list) + (RealTimePlot \<times> int \<times> data option list)" where
  "get_data_loop bo self count [] = Inr (self, count, [])"
| "get_data_loop bo self count (ev # evs) =
     (case get_data_iter bo self count ev of
        Inl (e, self') \<Rightarrow> Inl (e, self', [])
      | Inr (self', count', out) \<Rightarrow>
          (case get_data_loop bo self' count' evs of
             Inl (e, s, outs) \<Rightarrow> Inl (e, s, out # outs)
           | Inr (s, c, outs) \<Rightarrow> Inr (s, c, out # outs)))"

text \<open>\<^verbatim>\<open>__get_data\<close> starts with \<^verbatim>\<open>count = 0\<close> (line 227).\<close>

definition get_data ::
  "byteorder \<Rightarrow> RealTimePlot \<Rightarrow> event list \<Rightarrow>
     (error \<times> RealTimePlot \<times> data option list) + (RealTimePlot \<times> int \<times> data option list)" where
  "get_data bo self evs = get_data_loop bo self 0 evs"

text \<open>The object and the emissions that a run of the loop leaves behind.\<close>

definition after_run ::
  "(error \<times> RealTimePlot \<times> data option list) + (RealTimePlot \<times> int \<times> data option list) \<Rightarrow> RealTimePlot" where
  "after_run r = (case r of Inl (e, self, outs) \<Rightarrow> self | Inr (self, c, outs) \<Rightarrow> self)"

definition emitted ::
  "(error \<times> RealTimePlot \<times> data option list) + (RealTimePlot \<times> int \<times> data option list) \<Rightarrow> data option list" where
  "emitted r = (case r of Inl (e, self, outs) \<Rightarrow> outs | Inr (self, c, outs) \<Rightarrow> outs)"

text \<open>The tuples that reach the slot, in order.\<close>

definition forwarded :: "data option list \<Rightarrow> data list" where
  "forwarded outs = concat (map (\<lambda>out. case out of None \<Rightarrow> [] | Some d \<Rightarrow> [d]) outs)"

subsection \<open>The port\<close>

text \<open>
  Line 128 opens the port with \<^verbatim>\<open>serial.Serial(port, baud_rate)\<close>, without a
  time-out: \<^verbatim>\<open>readinto\<close> then returns only when 24 bytes have arrived, however the
  instrument cut them into packets. Over the bytes that arrive at the port, the reads of
  the loop therefore return its consecutive blocks of 24 bytes; with fewer than 24 bytes
  left the loop waits inside \<^verbatim>\<open>readinto\<close> (or, with none left, finds
  \<^verbatim>\<open>in_waiting == 0\<close> in every pass).
\<close>

fun frames :: "byte list \<Rightarrow> byte list list" where
  "frames stream =
     (if length stream < 24 then [] else take 24 stream # frames (drop 24 stream))"

declare frames.simps [simp del]

definition port_reads :: "byte list \<Rightarrow> event list" where
  "port_reads stream = map Avail (frames stream)"

text \<open>
  The loop on a port at which the bytes of \<open>stream\<close> arrive and nothing more. When bytes
  are left over, the loop has executed \<^verbatim>\<open>count += 1\<close> (line 231) and waits in line
  232, before any statement that decodes, writes or emits.
\<close>

definition port_run ::
  "byteorder \<Rightarrow> RealTimePlot \<Rightarrow> byte list \<Rightarrow>
     (error \<times> RealTimePlot \<times> data option list) + (RealTimePlot \<times> int \<times> data option list)" where
  "port_run bo self stream =
     (case get_data bo self (port_reads stream) of
        Inl r \<Rightarrow> Inl r
      | Inr (s, c, outs) \<Rightarrow> Inr (s, if length stream mod 24 = 0 then c else c + 1, outs))"

subsection \<open>Notions used in the properties\<close>

text \<open>
  The two lists that lines 193 to 199 of \<^verbatim>\<open>__update\<close> build: every y array with
  its new value, every x array with the new time in seconds.
\<close>

definition appended_y :: "RealTimePlot \<Rightarrow> pyvalue list \<Rightarrow> pyvalue list list" where
  "appended_y self vals = map (\<lambda>(data_y, v). data_y @ [v]) (zip (datas_y self) vals)"

definition appended_x :: "RealTimePlot \<Rightarrow> int \<Rightarrow> rat list list" where
  "appended_x self t = map (\<lambda>data_x. data_x @ [of_int t / 1000]) (datas_x self)"

text \<open>All x arrays and all y arrays have one and the same length.\<close>

definition aligned :: "RealTimePlot \<Rightarrow> bool" where
  "aligned self =
     (let ls = map length (datas_x self) @ map length (datas_y self)
      in \<forall>a\<in>set ls. \<forall>b\<in>set ls. a = b)"



text \<open>
  What the six \<^verbatim>\<open>struct.unpack\<close> calls read from a packet buffer: the time stamp from
  bytes 0 to 3, and channel \<open>i\<close> from bytes \<open>4 + 4 i\<close> to \<open>7 + 4 i\<close>.
\<close>

definition timestamp_of :: "byteorder \<Rightarrow> byte list \<Rightarrow> int" where
  "timestamp_of bo pkt = int_from_bytes bo (slice 0 4 pkt)"

definition channel_of :: "byteorder \<Rightarrow> byte list \<Rightarrow> nat \<Rightarrow> float32" where
  "channel_of bo pkt i = Float32 (word_of_int (int_from_bytes bo (slice (4 + 4 * i) (8 + 4 * i) pkt)))"

text \<open>The five channel values, and the list \<^verbatim>\<open>raw_data\<close> of line 242.\<close>

definition channels_of :: "byteorder \<Rightarrow> byte list \<Rightarrow> pyvalue list" where
  "channels_of bo pkt = map (\<lambda>i. PyFloat (channel_of bo pkt i)) [0..<5]"

definition raw_row :: "byteorder \<Rightarrow> byte list \<Rightarrow> pyvalue list" where
  "raw_row bo pkt = PyInt (timestamp_of bo pkt) # channels_of bo pkt"

text \<open>The lines of a file that may not exist yet.\<close>

definition lines_of :: "csv_row list option \<Rightarrow> csv_row list" where
  "lines_of f = (case f of None \<Rightarrow> [] | Some rows \<Rightarrow> rows)"

text \<open>
  The object after one pass that found bytes at the port (when no statement raised
  before), and the tuple built at lines 243 to 247.
\<close>

definition handled :: "byteorder \<Rightarrow> RealTimePlot \<Rightarrow> byte list \<Rightarrow> RealTimePlot" where
  "handled bo self bs =
     (let pkt = readinto (data_packet self) bs
      in self\<lparr>data_packet := pkt,
              time := (if time_from_serial self then time self else time self + update_rate self),
              csv_file := (if write_to_file self
                           then Some (lines_of (csv_file self) @ [Row (raw_row bo pkt)])
                           else csv_file self)\<rparr>)"

definition data_for :: "byteorder \<Rightarrow> RealTimePlot \<Rightarrow> byte list \<Rightarrow> data" where
  "data_for bo self bs =
     (let pkt = readinto (data_packet self) bs
      in if time_from_serial self then (timestamp_of bo pkt, channels_of bo pkt)
         else (time self + update_rate self, raw_row bo pkt))"

text \<open>The object that one pass leaves behind, raised or not.\<close>

definition after_iter ::
  "(error \<times> RealTimePlot) + (RealTimePlot \<times> int \<times> data option) \<Rightarrow> RealTimePlot" where
  "after_iter r = (case r of Inl (e, self) \<Rightarrow> self | Inr (self, c, out) \<Rightarrow> self)"

text \<open>
  The number of passes that found bytes at the port, that is, of decoded samples; and
  whether a pass is one of them.
\<close>

fun reads :: "event list \<Rightarrow> nat" where
  "reads [] = 0"
| "reads (Idle # evs) = reads evs"
| "reads (Avail bs # evs) = Suc (reads evs)"

definition is_avail :: "event \<Rightarrow> bool" where
  "is_avail ev = (case ev of Idle \<Rightarrow> False | Avail bs \<Rightarrow> True)"

text \<open>
  The successive contents of the packet buffer, one for each pass that read from the
  port: each is what that pass decodes.
\<close>

fun packets :: "byte list \<Rightarrow> event list \<Rightarrow> byte list list" where
  "packets buf [] = []"
| "packets buf (Idle # evs) = packets buf evs"
| "packets buf (Avail bs # evs) = readinto buf bs # packets (readinto buf bs) evs"

text \<open>The byte strings that the port handed over, in order.\<close>

fun payloads :: "event list \<Rightarrow> byte list list" where
  "payloads [] = []"
| "payloads (Idle # evs) = payloads evs"
| "payloads (Avail bs # evs) = bs # payloads evs"

text \<open>Every read filled the whole buffer: a stream of well-formed 24-byte packets.\<close>

definition full_reads :: "event list \<Rightarrow> bool" where
  "full_reads evs = list_all (\<lambda>bs. length bs = 24) (payloads evs)"

text \<open>The data rows of a file, without the header.\<close>

definition data_rows :: "csv_row list \<Rightarrow> pyvalue list list" where
  "data_rows rows = concat (map (\<lambda>r. case r of Names ns \<Rightarrow> [] | Row vs \<Rightarrow> [vs]) rows)"

text \<open>
  The unsigned 32-bit integer that the four bytes from an offset denote, least
  significant byte first (little-endian) and most significant byte first (big-endian);
  and the one of the two that is the host's.
\<close>

definition le_uint32 :: "byte list \<Rightarrow> nat \<Rightarrow> int" where
  "le_uint32 pkt off =
     uint (pkt ! off) + 256 * uint (pkt ! (off + 1)) + 65536 * uint (pkt ! (off + 2)) +
     16777216 * uint (pkt ! (off + 3))"

definition be_uint32 :: "byte list \<Rightarrow> nat \<Rightarrow> int" where
  "be_uint32 pkt off =
     16777216 * uint (pkt ! off) + 65536 * uint (pkt ! (off + 1)) + 256 * uint (pkt ! (off + 2)) +
     uint (pkt ! (off + 3))"

definition native_uint32 :: "byteorder \<Rightarrow> byte list \<Rightarrow> nat \<Rightarrow> int" where
  "native_uint32 bo pkt off =
     (case bo of LittleEndian \<Rightarrow> le_uint32 pkt off | BigEndian \<Rightarrow> be_uint32 pkt off)"

text \<open>The 32 bits of a single-precision number, as an unsigned integer.\<close>

definition float32_bits :: "float32 \<Rightarrow> int" where
  "float32_bits f = (case f of Float32 w \<Rightarrow> uint w)"

text \<open>
  The packet buffers that the loop decodes before it ends: all of them, or only the first
  when \<open>sensor_rate\<close> is zero, since line 253 then raises in the first pass that decodes,
  after that pass has written its row.
\<close>

definition decoded :: "int \<Rightarrow> byte list \<Rightarrow> event list \<Rightarrow> byte list list" where
  "decoded sr buf evs = (if sr = 0 then take 1 (packets buf evs) else packets buf evs)"

section \<open>Properties of the display arrays\<close>

lemma aligned_iff:
  "aligned self \<longleftrightarrow>
     (\<exists>L. (\<forall>x\<in>set (datas_x self). length x = L) \<and> (\<forall>y\<in>set (datas_y self). length y = L))"
proof
  assume A: "aligned self"
  let ?ls = "map length (datas_x self) @ map length (datas_y self)"
  from A have eq: "\<And>a b. a \<in> set ?ls \<Longrightarrow> b \<in> set ?ls \<Longrightarrow> a = b"
    unfolding aligned_def Let_def by blast
  show "\<exists>L. (\<forall>x\<in>set (datas_x self). length x = L) \<and> (\<forall>y\<in>set (datas_y self). length y = L)"
  proof (cases ?ls)
    case Nil
    then show ?thesis by simp
  next
    case (Cons l rest)
    then have l: "l \<in> set ?ls" by simp
    have "\<forall>x\<in>set (datas_x self). length x = l"
    proof
      fix x assume "x \<in> set (datas_x self)"
      then have "length x \<in> set ?ls" by simp
      then show "length x = l" using l by (rule eq)
    qed
    moreover have "\<forall>y\<in>set (datas_y self). length y = l"
    proof
      fix y assume "y \<in> set (datas_y self)"
      then have "length y \<in> set ?ls" by simp
      then show "length y = l" using l by (rule eq)
    qed
    ultimately show ?thesis by blast
  qed
next
  assume "\<exists>L. (\<forall>x\<in>set (datas_x self). length x = L) \<and> (\<forall>y\<in>set (datas_y self). length y = L)"
  then obtain L where X: "\<forall>x\<in>set (datas_x self). length x = L"
    and Y: "\<forall>y\<in>set (datas_y self). length y = L" by blast
  have "\<forall>a\<in>set (map length (datas_x self) @ map length (datas_y self)). a = L"
    using X Y by auto
  then show "aligned self" unfolding aligned_def Let_def by metis
qed

lemma update_eq:
  "update self (t, vals) =
     (if vals = [] then Inr self
      else if datas_x self \<noteq> [] \<and> overflows t
      then Inl (OverflowError, self\<lparr>datas_y := appended_y self vals\<rparr>)
      else case appended_y self vals of
             [] \<Rightarrow> Inl (IndexError, self\<lparr>datas_y := appended_y self vals, datas_x := appended_x self t\<rparr>)
           | y0 # rest \<Rightarrow>
               if int (length y0) > max_size self
               then Inr (self\<lparr>datas_y := map (drop 1) (appended_y self vals),
                              datas_x := map (drop 1) (appended_x self t)\<rparr>)
               else Inr (self\<lparr>datas_y := appended_y self vals, datas_x := appended_x self t\<rparr>))"
  by (simp add: update_def Let_def appended_y_def appended_x_def split: list.split)

lemma update_in_range:
  assumes "vals \<noteq> []" and "\<not> overflows t"
  shows "update self (t, vals) =
     (case appended_y self vals of
        [] \<Rightarrow> Inl (IndexError, self\<lparr>datas_y := appended_y self vals, datas_x := appended_x self t\<rparr>)
      | y0 # rest \<Rightarrow>
          if int (length y0) > max_size self
          then Inr (self\<lparr>datas_y := map (drop 1) (appended_y self vals),
                         datas_x := map (drop 1) (appended_x self t)\<rparr>)
          else Inr (self\<lparr>datas_y := appended_y self vals, datas_x := appended_x self t\<rparr>))"
  unfolding update_eq using assms by (simp only: if_False simp_thms)

lemma length_appended_y:
  "\<forall>y\<in>set (datas_y self). length y = L \<Longrightarrow> \<forall>y\<in>set (appended_y self vals). length y = Suc L"
  by (auto simp: appended_y_def dest: set_zip_leftD)

lemma length_appended_x:
  "\<forall>x\<in>set (datas_x self). length x = L \<Longrightarrow> \<forall>x\<in>set (appended_x self t). length x = Suc L"
  by (auto simp: appended_x_def)



lemma length_appended_x_list: "length (appended_x self t) = length (datas_x self)"
  by (simp add: appended_x_def)

lemma length_appended_y_list: "length (appended_y self vals) = min (length (datas_y self)) (length vals)"
  by (simp add: appended_y_def)

lemma series_update:
  assumes lx: "length (datas_x self) = n" and ly: "length (datas_y self) = n"
    and al: "aligned self" and le: "n \<le> length (snd d)" and t: "\<not> overflows (fst d)"
  shows "length (datas_x (final (update self d))) = n \<and>
         length (datas_y (final (update self d))) = n \<and>
         aligned (final (update self d))"
proof -
  obtain t' vals where d: "d = (t', vals)" by (cases d)
  from al obtain L where
    X: "\<forall>x\<in>set (datas_x self). length x = L" and Y: "\<forall>y\<in>set (datas_y self). length y = L"
    unfolding aligned_iff by blast
  note X1 = length_appended_x[OF X, of t'] and Y1 = length_appended_y[OF Y, of vals]
  let ?ax = "appended_x self t'" and ?ay = "appended_y self vals"
  have lax: "length ?ax = n" by (simp add: length_appended_x_list lx)
  have lay: "length ?ay = n" using le d by (simp add: length_appended_y_list ly)
  let ?s1 = "self\<lparr>datas_y := ?ay, datas_x := ?ax\<rparr>"
  let ?s2 = "self\<lparr>datas_y := map (drop 1) ?ay, datas_x := map (drop 1) ?ax\<rparr>"
  have A1: "aligned ?s1"
    unfolding aligned_iff using X1 Y1 by (intro exI[of _ "Suc L"]) simp
  have A2: "aligned ?s2"
    unfolding aligned_iff using X1 Y1 by (intro exI[of _ L]) simp
  have G1: "length (datas_x ?s1) = n \<and> length (datas_y ?s1) = n \<and> aligned ?s1"
    using lax lay A1 by simp
  have G2: "length (datas_x ?s2) = n \<and> length (datas_y ?s2) = n \<and> aligned ?s2"
    using lax lay A2 by simp
  show ?thesis
  proof (cases "vals = []")
    case True
    then show ?thesis using lx ly al by (simp add: d update_eq final_def)
  next
    case False
    have nt: "\<not> overflows t'" using t d by simp
    note u = update_in_range[OF False nt, of self]
    show ?thesis
    proof (cases ?ay)
      case Nil
      have "final (update self d) = ?s1"
        unfolding d u by (simp only: Nil list.case final_def sum.case prod.case)
      then show ?thesis using G1 by simp
    next
      case (Cons y0 rest)
      show ?thesis
      proof (cases "int (length y0) > max_size self")
        case True
        have "final (update self d) = ?s2"
          unfolding d u using True
          by (simp only: Cons if_True list.case final_def sum.case prod.case)
        then show ?thesis using G2 by simp
      next
        case F: False
        have "final (update self d) = ?s1"
          unfolding d u using F
          by (simp only: Cons if_False list.case final_def sum.case prod.case)
        then show ?thesis using G1 by simp
      qed
    qed
  qed
qed

lemma series_pushes:
  assumes "length (datas_x self) = n" and "length (datas_y self) = n" and "aligned self"
    and "\<forall>d\<in>set ds. n \<le> length (snd d) \<and> \<not> overflows (fst d)"
  shows "length (datas_x (final (pushes self ds))) = n \<and>
         length (datas_y (final (pushes self ds))) = n \<and>
         aligned (final (pushes self ds))"
  using assms
proof (induction ds arbitrary: self)
  case Nil
  then show ?case by (simp add: final_def)
next
  case (Cons d ds)
  from Cons.prems(4) have hd: "n \<le> length (snd d)" "\<not> overflows (fst d)"
    and tl: "\<forall>d\<in>set ds. n \<le> length (snd d) \<and> \<not> overflows (fst d)" by simp_all
  note st = series_update[OF Cons.prems(1,2,3) hd]
  show ?case
  proof (cases "update self d")
    case (Inl e)
    then have "final (pushes self (d # ds)) = final (update self d)" by (simp add: final_def)
    then show ?thesis using st by simp
  next
    case (Inr s)
    then have "length (datas_x s) = n" "length (datas_y s) = n" "aligned s"
      using st by (simp_all add: final_def)
    from Cons.IH[OF this tl] show ?thesis using Inr by simp
  qed
qed

lemma series_init:
  "init data_set ur sr ms wtf = Inr self \<Longrightarrow>
     length (datas_x self) = num_of_data self \<and> length (datas_y self) = num_of_data self \<and>
     aligned self"
  by (auto simp: init_def aligned_iff Let_def split: list.splits)

text \<open>
  Claim C5, as amended. Starting from the arrays that the constructor makes, after any
  sequence of calls of \<^verbatim>\<open>__update\<close> that each carry at least as many values as there
  are series and a time whose quotient by 1000 is in the range of a double, there are
  \<open>N\<close> x arrays and \<open>N\<close> y arrays, and all of them have the same length. (This holds also
  in the one case in which such a call raises: no series at all.)
\<close>

theorem C5_series_aligned:
  assumes "init data_set ur sr ms wtf = Inr self"
    and "\<forall>d\<in>set ds. num_of_data self \<le> length (snd d) \<and> \<not> overflows (fst d)"
  shows "length (datas_x (final (pushes self ds))) = num_of_data self \<and>
         length (datas_y (final (pushes self ds))) = num_of_data self \<and>
         aligned (final (pushes self ds))"
proof -
  from series_init[OF assms(1)] have i: "length (datas_x self) = num_of_data self"
    "length (datas_y self) = num_of_data self" "aligned self" by simp_all
  from series_pushes[OF i assms(2)] show ?thesis .
qed

theorem C5_series_aligned_witness:
  "\<exists>self. init [''time (ms)'', ''PT1 (barg)'', ''PT2 (barg)''] 50 10 2 True = Inr self \<and>
     num_of_data self = 2 \<and> \<not> overflows 30 \<and>
     length (datas_x (final (pushes self
       [(10, [PyFloat (Float32 1), PyFloat (Float32 2)]),
        (20, [PyFloat (Float32 3), PyFloat (Float32 4)]),
        (30, [PyFloat (Float32 5), PyFloat (Float32 6), PyFloat (Float32 7)])]))) = 2 \<and>
     length (datas_y (final (pushes self
       [(10, [PyFloat (Float32 1), PyFloat (Float32 2)]),
        (20, [PyFloat (Float32 3), PyFloat (Float32 4)]),
        (30, [PyFloat (Float32 5), PyFloat (Float32 6), PyFloat (Float32 7)])]))) = 2 \<and>
     aligned (final (pushes self
       [(10, [PyFloat (Float32 1), PyFloat (Float32 2)]),
        (20, [PyFloat (Float32 3), PyFloat (Float32 4)]),
        (30, [PyFloat (Float32 5), PyFloat (Float32 6), PyFloat (Float32 7)])]))"
proof -
  let ?ds = "[(10, [PyFloat (Float32 1), PyFloat (Float32 2)]),
        (20, [PyFloat (Float32 3), PyFloat (Float32 4)]),
        (30::int, [PyFloat (Float32 5), PyFloat (Float32 6), PyFloat (Float32 7)])]"
  obtain self where i: "init [''time (ms)'', ''PT1 (barg)'', ''PT2 (barg)''] 50 10 2 True = Inr self"
    and n: "num_of_data self = 2"
    by (simp add: init_def)
  have o: "\<not> overflows 10" "\<not> overflows 20" "\<not> overflows 30"
    by (simp_all add: overflows_def)
  have h: "\<forall>d\<in>set ?ds. num_of_data self \<le> length (snd d) \<and> \<not> overflows (fst d)"
    using n o by simp
  note r = C5_series_aligned[OF i h, unfolded n]
  show ?thesis using i n o(3) r by blast
qed











section \<open>Properties of one pass of the acquisition loop\<close>

lemma length_readinto: "length (readinto b bs) = length b"
  by (simp add: readinto_def Let_def)

lemma readinto_full: "length bs = length b \<Longrightarrow> readinto b bs = bs"
  by (simp add: readinto_def Let_def)

lemma length_slice: "b \<le> length xs \<Longrightarrow> length (slice a b xs) = b - a"
  by (simp add: slice_def)

lemma unpack_packet_24:
  assumes "length pkt = 24"
  shows "unpack_packet bo pkt =
           Inr (timestamp_of bo pkt, map (channel_of bo pkt) [0..<5])"
proof -
  have l: "length (slice 0 4 pkt) = 4" "length (slice 4 8 pkt) = 4" "length (slice 8 12 pkt) = 4"
    "length (slice 12 16 pkt) = 4" "length (slice 16 20 pkt) = 4" "length (slice 20 24 pkt) = 4"
    using assms by (simp_all add: length_slice)
  have u: "[0..<5] = [0, 1, 2, 3, 4]" by (simp add: upt_rec)
  show ?thesis
    by (simp add: unpack_packet_def and_then_def unpack_I_def unpack_f_def l u
        timestamp_of_def channel_of_def)
qed

lemma write_to_csv_eq:
  "write_to_csv self row = self\<lparr>csv_file := Some (lines_of (csv_file self) @ [Row row])\<rparr>"
  by (simp add: write_to_csv_def lines_of_def)

lemma get_data_iter_Idle: "get_data_iter bo self c Idle = Inr (self, c, None)"
  by (simp add: get_data_iter_def)

lemma get_data_iter_Avail:
  assumes "length (data_packet self) = 24"
  shows "get_data_iter bo self c (Avail bs) =
           (if sensor_rate self = 0 then Inl (ZeroDivisionError, handled bo self bs)
            else if c + 1 = update_rate self div sensor_rate self
                 then Inr (handled bo self bs, 0, Some (data_for bo self bs))
                 else Inr (handled bo self bs, c + 1, None))"
proof -
  have l: "length (readinto (data_packet self) bs) = 24"
    using assms by (simp add: length_readinto)
  show ?thesis
    unfolding get_data_iter_def
    by (simp add: Let_def unpack_packet_24[OF l] write_to_csv_eq handled_def data_for_def
        raw_row_def channels_of_def)
qed

lemma handled_fields [simp]:
  "update_rate (handled bo self bs) = update_rate self"
  "sensor_rate (handled bo self bs) = sensor_rate self"
  "time_from_serial (handled bo self bs) = time_from_serial self"
  "write_to_file (handled bo self bs) = write_to_file self"
  "num_of_data (handled bo self bs) = num_of_data self"
  "max_size (handled bo self bs) = max_size self"
  "datas_x (handled bo self bs) = datas_x self"
  "datas_y (handled bo self bs) = datas_y self"
  "data_packet (handled bo self bs) = readinto (data_packet self) bs"
  "length (data_packet (handled bo self bs)) = length (data_packet self)"
  by (simp_all add: handled_def Let_def length_readinto)

section \<open>Properties of the acquisition loop\<close>

lemma dvd_count_step:
  "((K::int) dvd ((if c + 1 = K then 0 else c + 1) + r)) = (K dvd (c + (1 + r)))"
proof (cases "c + 1 = K")
  case True
  then have "c = K - 1" by simp
  then show ?thesis by simp
next
  case False
  then show ?thesis by (simp add: add.assoc)
qed

lemma loop_forwarding:
  assumes "length (data_packet self) = 24"
    and "1 \<le> update_rate self div sensor_rate self"
    and "0 \<le> c" and "c < update_rate self div sensor_rate self"
  shows "\<exists>s c' outs. get_data_loop bo self c evs = Inr (s, c', outs) \<and>
           length outs = length evs \<and>
           (\<forall>i<length evs.
              (outs ! i \<noteq> None) =
              (is_avail (evs ! i) \<and>
               (update_rate self div sensor_rate self) dvd (c + int (reads (take (Suc i) evs)))))"
  using assms
proof (induction evs arbitrary: self c)
  case Nil
  then show ?case by simp
next
  case (Cons ev evs)
  let ?K = "update_rate self div sensor_rate self"
  from Cons.prems(2) have sr: "sensor_rate self \<noteq> 0" by (cases "sensor_rate self = 0") auto
  show ?case
  proof (cases ev)
    case Idle
    from Cons.IH[OF Cons.prems] obtain s c' outs where
      r: "get_data_loop bo self c evs = Inr (s, c', outs)" "length outs = length evs"
      and h: "\<forall>i<length evs. (outs ! i \<noteq> None) =
            (is_avail (evs ! i) \<and> ?K dvd (c + int (reads (take (Suc i) evs))))"
      by blast
    have "get_data_loop bo self c (ev # evs) = Inr (s, c', None # outs)"
      using r(1) by (simp add: Idle get_data_iter_Idle)
    moreover have "(((None # outs) ! i) \<noteq> None) =
            (is_avail ((ev # evs) ! i) \<and> ?K dvd (c + int (reads (take (Suc i) (ev # evs)))))"
      if "i < length (ev # evs)" for i
    proof (cases i)
      case 0
      then show ?thesis by (simp add: Idle is_avail_def)
    next
      case (Suc j)
      then show ?thesis using that h by (simp add: Idle)
    qed
    ultimately show ?thesis using r(2) by simp
  next
    case (Avail bs)
    let ?s1 = "handled bo self bs"
    let ?c1 = "if c + 1 = ?K then 0 else c + 1"
    let ?o1 = "if c + 1 = ?K then Some (data_for bo self bs) else None"
    have it: "get_data_iter bo self c ev = Inr (?s1, ?c1, ?o1)"
      using sr by (simp add: Avail get_data_iter_Avail[OF Cons.prems(1)])
    have p: "length (data_packet ?s1) = 24" "1 \<le> update_rate ?s1 div sensor_rate ?s1"
      "0 \<le> ?c1" "?c1 < update_rate ?s1 div sensor_rate ?s1"
      using Cons.prems by (auto simp: length_readinto)
    from Cons.IH[OF p] obtain s c' outs where
      r: "get_data_loop bo ?s1 ?c1 evs = Inr (s, c', outs)" "length outs = length evs"
      and h: "\<forall>i<length evs. (outs ! i \<noteq> None) =
            (is_avail (evs ! i) \<and> ?K dvd (?c1 + int (reads (take (Suc i) evs))))"
      by auto
    have "get_data_loop bo self c (ev # evs) = Inr (s, c', ?o1 # outs)"
      using r(1) it by simp
    moreover have "(((?o1 # outs) ! i) \<noteq> None) =
            (is_avail ((ev # evs) ! i) \<and> ?K dvd (c + int (reads (take (Suc i) (ev # evs)))))"
      if "i < length (ev # evs)" for i
    proof (cases i)
      case 0
      have "(c + 1 = ?K) = (?K dvd (c + 1))"
      proof
        assume "c + 1 = ?K" then show "?K dvd (c + 1)" by simp
      next
        assume "?K dvd (c + 1)"
        then have "?K \<le> c + 1" using Cons.prems(3) by (intro zdvd_imp_le) auto
        then show "c + 1 = ?K" using Cons.prems(4) by simp
      qed
      then show ?thesis using 0 by (simp add: Avail is_avail_def)
    next
      case (Suc j)
      have "?K dvd (?c1 + int (reads (take (Suc j) evs))) =
            (?K dvd (c + (1 + int (reads (take (Suc j) evs)))))"
        by (rule dvd_count_step)
      then show ?thesis using Suc that h by (simp add: Avail)
    qed
    ultimately show ?thesis using r(2) by simp
  qed
qed

lemma length_packets: "length (packets buf evs) = reads evs"
  by (induction buf evs rule: packets.induct) simp_all

lemma packets_full:
  "length buf = 24 \<Longrightarrow> full_reads evs \<Longrightarrow> packets buf evs = payloads evs"
proof (induction buf evs rule: packets.induct)
  case (1 buf)
  then show ?case by simp
next
  case (2 buf evs)
  then show ?case by (simp add: full_reads_def)
next
  case (3 buf bs evs)
  then have "readinto buf bs = bs" by (simp add: full_reads_def readinto_full)
  then show ?case using 3 by (simp add: full_reads_def)
qed

lemma init_fields:
  assumes "init (d # ds) ur sr ms wtf = Inr self"
  shows "update_rate self = ur" "sensor_rate self = sr" "time self = 0"
    "time_from_serial self = (d = ''time (ms)'')"
    "num_of_data self = (if d = ''time (ms)'' then length ds else length (d # ds))"
    "max_size self = ms" "data_packet self = replicate 24 0"
    "write_to_file self = wtf"
    "csv_file self = (if wtf then Some [Names (''time'' # (if d = ''time (ms)'' then ds else d # ds))] else None)"
  using assms by (auto simp: init_def Let_def)

lemma init_Inr: "init data_set ur sr ms wtf = Inr self \<Longrightarrow> \<exists>d ds. data_set = d # ds"
  by (cases data_set) (simp_all add: init_def)

lemma loop_log:
  assumes "length (data_packet self) = 24" and "sensor_rate self \<noteq> 0"
    and "write_to_file self \<longrightarrow> csv_file self \<noteq> None"
  shows "\<exists>s c' outs. get_data_loop bo self c evs = Inr (s, c', outs) \<and>
           csv_file s = (if write_to_file self
                         then Some (lines_of (csv_file self) @
                                    map (\<lambda>pkt. Row (raw_row bo pkt)) (packets (data_packet self) evs))
                         else csv_file self)"
  using assms
proof (induction evs arbitrary: self c)
  case Nil
  then show ?case by (auto simp: lines_of_def split: option.split)
next
  case (Cons ev evs)
  show ?case
  proof (cases ev)
    case Idle
    from Cons.IH[OF Cons.prems, of c] show ?thesis
      by (auto simp: Idle get_data_iter_Idle)
  next
    case (Avail bs)
    let ?s1 = "handled bo self bs"
    let ?K = "update_rate self div sensor_rate self"
    let ?c1 = "if c + 1 = ?K then 0 else c + 1"
    let ?o1 = "if c + 1 = ?K then Some (data_for bo self bs) else None"
    have it: "get_data_iter bo self c ev = Inr (?s1, ?c1, ?o1)"
      using Cons.prems(2) by (simp add: Avail get_data_iter_Avail[OF Cons.prems(1)])
    have p: "length (data_packet ?s1) = 24" "sensor_rate ?s1 \<noteq> 0"
      "write_to_file ?s1 \<longrightarrow> csv_file ?s1 \<noteq> None"
      using Cons.prems by (auto simp: length_readinto handled_def Let_def)
    from Cons.IH[OF p, of ?c1] obtain s c' outs where
      r: "get_data_loop bo ?s1 ?c1 evs = Inr (s, c', outs)"
      and h: "csv_file s = (if write_to_file ?s1
                         then Some (lines_of (csv_file ?s1) @
                                    map (\<lambda>pkt. Row (raw_row bo pkt)) (packets (data_packet ?s1) evs))
                         else csv_file ?s1)"
      by blast
    have "get_data_loop bo self c (ev # evs) = Inr (s, c', ?o1 # outs)"
      using r it by simp
    moreover have "csv_file s = (if write_to_file self
                         then Some (lines_of (csv_file self) @
                                    map (\<lambda>pkt. Row (raw_row bo pkt)) (packets (data_packet self) (ev # evs)))
                         else csv_file self)"
      using h by (simp add: Avail handled_def Let_def lines_of_def)
    ultimately show ?thesis by blast
  qed
qed

lemma length_forwarded_Cons:
  "length (forwarded (out # outs)) = (if out = None then 0 else 1) + length (forwarded outs)"
  by (cases out) (simp_all add: forwarded_def)

lemma loop_count:
  assumes "length (data_packet self) = 24"
    and "1 \<le> update_rate self div sensor_rate self"
    and "0 \<le> c" and "c < update_rate self div sensor_rate self"
  shows "\<exists>s c' outs. get_data_loop bo self c evs = Inr (s, c', outs) \<and>
           int (length (forwarded outs)) =
             (c + int (reads evs)) div (update_rate self div sensor_rate self)"
  using assms
proof (induction evs arbitrary: self c)
  case Nil
  then show ?case by (simp add: forwarded_def)
next
  case (Cons ev evs)
  let ?K = "update_rate self div sensor_rate self"
  from Cons.prems(2) have sr: "sensor_rate self \<noteq> 0" by (cases "sensor_rate self = 0") auto
  show ?case
  proof (cases ev)
    case Idle
    from Cons.IH[OF Cons.prems] show ?thesis
      by (auto simp: Idle get_data_iter_Idle length_forwarded_Cons)
  next
    case (Avail bs)
    let ?s1 = "handled bo self bs"
    let ?c1 = "if c + 1 = ?K then 0 else c + 1"
    let ?o1 = "if c + 1 = ?K then Some (data_for bo self bs) else None"
    have it: "get_data_iter bo self c ev = Inr (?s1, ?c1, ?o1)"
      using sr by (simp add: Avail get_data_iter_Avail[OF Cons.prems(1)])
    have p: "length (data_packet ?s1) = 24" "1 \<le> update_rate ?s1 div sensor_rate ?s1"
      "0 \<le> ?c1" "?c1 < update_rate ?s1 div sensor_rate ?s1"
      using Cons.prems by (auto simp: length_readinto)
    from Cons.IH[OF p] obtain s c' outs where
      r: "get_data_loop bo ?s1 ?c1 evs = Inr (s, c', outs)"
      and h: "int (length (forwarded outs)) = (?c1 + int (reads evs)) div ?K"
      by auto
    have g: "get_data_loop bo self c (ev # evs) = Inr (s, c', ?o1 # outs)"
      using r it by simp
    have "int (length (forwarded (?o1 # outs))) = (c + int (reads (ev # evs))) div ?K"
    proof (cases "c + 1 = ?K")
      case True
      have "(c + int (reads (ev # evs))) = ?K + int (reads evs)" using True by (simp add: Avail)
      moreover have "(?K + int (reads evs)) div ?K = int (reads evs) div ?K + 1"
        using Cons.prems(2) by (intro div_add_self1) simp
      ultimately show ?thesis using h True by (simp add: length_forwarded_Cons)
    next
      case False
      then show ?thesis using h by (simp add: length_forwarded_Cons Avail add.assoc)
    qed
    then show ?thesis using g by blast
  qed
qed

lemma reads_replicate: "reads (replicate n (Avail bs)) = n"
  by (induction n) simp_all

lemma data_rows_log:
  "data_rows (Names ns # map (\<lambda>pkt. Row (f pkt)) pkts) = map f pkts"
  by (induction pkts) (simp_all add: data_rows_def)

lemma init_packet:
  "init data_set ur sr ms wtf = Inr self \<Longrightarrow>
     length (data_packet self) = 24 \<and> update_rate self = ur \<and> sensor_rate self = sr \<and>
     write_to_file self = wtf \<and> (write_to_file self \<longrightarrow> csv_file self \<noteq> None)"
  by (auto simp: init_def Let_def split: list.splits)

text \<open>
  Claim C1, as amended. For every configuration with
  \<open>K = update_rate // sensor_rate \<ge> 1\<close>, the loop started by \<^verbatim>\<open>__get_data\<close> does not
  raise, and a pass emits a tuple exactly when it decoded a sample and the number of
  samples decoded so far is a multiple of \<open>K\<close>: one forward in every \<open>K\<close> consecutive
  decoded samples, the \<open>K\<close>-th, the \<open>2K\<close>-th and so on. (The code has no clamp of \<open>K\<close>;
  nothing is stated here for \<open>K < 1\<close>.)
\<close>

theorem C1_forward_every_Kth:
  assumes "init data_set ur sr ms wtf = Inr self" and "1 \<le> ur div sr"
  shows "\<exists>s c outs. get_data bo self evs = Inr (s, c, outs) \<and> length outs = length evs \<and>
           (\<forall>i<length evs.
              (outs ! i \<noteq> None) =
              (is_avail (evs ! i) \<and> (ur div sr) dvd int (reads (take (Suc i) evs))))"
proof -
  from init_packet[OF assms(1)] have f: "length (data_packet self) = 24"
    "update_rate self = ur" "sensor_rate self = sr" by auto
  have k: "1 \<le> update_rate self div sensor_rate self" "(0::int) \<le> 0"
    "0 < update_rate self div sensor_rate self"
    using assms(2) f by auto
  from loop_forwarding[OF f(1) k, of bo evs] show ?thesis
    unfolding get_data_def f by simp
qed

text \<open>
  Claim C3. For every configuration with \<open>K = update_rate // sensor_rate \<ge> 1\<close> and every
  stream in which \<open>T\<close> samples are decoded, exactly \<open>T div K\<close> tuples are emitted, and with
  logging enabled the file holds \<open>T\<close> data rows. The witness is the scenario of 10 packets
  with \<open>sensor_rate = 10\<close> and \<open>update_rate = 50\<close>: 2 forwarded, 10 logged.
\<close>

theorem C3_forward_count:
  assumes "init data_set ur sr ms wtf = Inr self" and "1 \<le> ur div sr"
  shows "\<exists>s c outs. get_data bo self evs = Inr (s, c, outs) \<and>
           int (length (forwarded outs)) = int (reads evs) div (ur div sr) \<and>
           (wtf \<longrightarrow> length (data_rows (lines_of (csv_file s))) = reads evs)"
proof -
  from init_Inr[OF assms(1)] obtain d ds where dd: "data_set = d # ds" by blast
  note i = init_fields[OF assms(1)[unfolded dd]]
  from init_packet[OF assms(1)] have f: "length (data_packet self) = 24"
    "update_rate self = ur" "sensor_rate self = sr" "write_to_file self = wtf"
    "write_to_file self \<longrightarrow> csv_file self \<noteq> None" by auto
  have k: "1 \<le> update_rate self div sensor_rate self" "(0::int) \<le> 0"
    "0 < update_rate self div sensor_rate self"
    using assms(2) f by auto
  from assms(2) have sr: "sensor_rate self \<noteq> 0" unfolding f by (cases "sr = 0") auto
  from loop_count[OF f(1) k, of bo evs] obtain s c outs where
    g: "get_data_loop bo self 0 evs = Inr (s, c, outs)"
    and n: "int (length (forwarded outs)) = int (reads evs) div (ur div sr)"
    unfolding f by auto
  from loop_log[OF f(1) sr f(5), of bo 0 evs] g
  have l: "csv_file s = (if write_to_file self
                         then Some (lines_of (csv_file self) @
                                    map (\<lambda>pkt. Row (raw_row bo pkt)) (packets (data_packet self) evs))
                         else csv_file self)"
    by auto
  have "length (data_rows (lines_of (csv_file s))) = reads evs" if wtf
    using that l i(8,9) by (simp add: lines_of_def data_rows_log length_packets)
  then show ?thesis using g n unfolding get_data_def by blast
qed

theorem C3_forward_count_witness:
  "\<exists>self s c outs.
     init [''time (ms)'', ''PT1 (barg)''] 50 10 250 True = Inr self \<and> (1::int) \<le> 50 div 10 \<and>
     get_data LittleEndian self (replicate 10 (Avail (replicate 24 0))) = Inr (s, c, outs) \<and>
     length (forwarded outs) = 2 \<and>
     length (data_rows (lines_of (csv_file s))) = 10"
proof -
  obtain self where i: "init [''time (ms)'', ''PT1 (barg)''] 50 10 250 True = Inr self"
    by (simp add: init_def)
  have k: "(1::int) \<le> 50 div 10" by simp
  from C3_forward_count[OF i k, of LittleEndian "replicate 10 (Avail (replicate 24 0))"]
  obtain s c outs where
    "get_data LittleEndian self (replicate 10 (Avail (replicate 24 0))) = Inr (s, c, outs)"
    "int (length (forwarded outs)) = 2"
    "length (data_rows (lines_of (csv_file s))) = 10"
    by (auto simp: reads_replicate)
  then show ?thesis using i k by auto
qed

lemma after_run_Cons:
  "get_data_iter bo self c ev = Inr (self', c', out) \<Longrightarrow>
     after_run (get_data_loop bo self c (ev # evs)) = after_run (get_data_loop bo self' c' evs)"
  by (cases "get_data_loop bo self' c' evs") (auto simp: after_run_def)

lemma loop_crash_log:
  assumes "length (data_packet self) = 24" and "sensor_rate self = 0"
    and "write_to_file self \<longrightarrow> csv_file self \<noteq> None"
  shows "csv_file (after_run (get_data_loop bo self c evs)) =
           (if write_to_file self
            then Some (lines_of (csv_file self) @
                       map (\<lambda>pkt. Row (raw_row bo pkt)) (take 1 (packets (data_packet self) evs)))
            else csv_file self)"
proof (induction evs)
  case Nil
  then show ?case using assms(3) by (auto simp: after_run_def lines_of_def)
next
  case (Cons ev evs)
  show ?case
  proof (cases ev)
    case Idle
    have "after_run (get_data_loop bo self c (ev # evs)) = after_run (get_data_loop bo self c evs)"
      by (rule after_run_Cons) (simp add: Idle get_data_iter_Idle)
    then show ?thesis using Cons.IH by (simp add: Idle)
  next
    case (Avail bs)
    have "get_data_loop bo self c (ev # evs) = Inl (ZeroDivisionError, handled bo self bs, [])"
      using assms(2) by (simp add: Avail get_data_iter_Avail[OF assms(1)])
    then have "after_run (get_data_loop bo self c (ev # evs)) = handled bo self bs"
      by (simp add: after_run_def)
    then show ?thesis by (simp add: Avail handled_def Let_def)
  qed
qed

text \<open>
  Claim C8. With logging disabled the constructor creates no file and the loop leaves it
  so. With logging enabled the file is the header followed by exactly one row for each
  decoded sample, in the order of decoding, whatever \<open>update_rate\<close> and the emissions
  are. The decoded samples are the successive contents of the packet buffer; there is
  one for each pass that read from the port (unless \<open>sensor_rate\<close> is zero, when the
  thread ends after the first), and for a stream of full 24-byte reads they are the
  packets received.
\<close>

theorem C8_log_every_sample_in_order:
  assumes "init (d # ds) ur sr ms wtf = Inr self"
  shows "(csv_file self = None) = (\<not> wtf) \<and>
         csv_file (after_run (get_data bo self evs)) =
           (if wtf
            then Some (Names (''time'' # (if d = ''time (ms)'' then ds else d # ds)) #
                       map (\<lambda>pkt. Row (raw_row bo pkt)) (decoded sr (replicate 24 0) evs))
            else None) \<and>
         (sr \<noteq> 0 \<longrightarrow> length (decoded sr (replicate 24 0) evs) = reads evs) \<and>
         (full_reads evs \<longrightarrow> packets (replicate 24 0) evs = payloads evs)"
proof -
  note i = init_fields[OF assms(1)]
  have f: "length (data_packet self) = 24"
    "write_to_file self \<longrightarrow> csv_file self \<noteq> None"
    using i by auto
  have l: "csv_file (after_run (get_data_loop bo self 0 evs)) =
             (if write_to_file self
              then Some (lines_of (csv_file self) @
                         map (\<lambda>pkt. Row (raw_row bo pkt)) (decoded sr (data_packet self) evs))
              else csv_file self)"
  proof (cases "sr = 0")
    case True
    then have z: "sensor_rate self = 0" using i(2) by simp
    show ?thesis using loop_crash_log[OF f(1) z f(2), of bo 0 evs] True
      by (simp add: decoded_def)
  next
    case False
    then have nz: "sensor_rate self \<noteq> 0" using i(2) by simp
    from loop_log[OF f(1) nz f(2), of bo 0 evs] show ?thesis using False
      by (auto simp: decoded_def after_run_def)
  qed
  have "csv_file (after_run (get_data bo self evs)) =
           (if wtf
            then Some (Names (''time'' # (if d = ''time (ms)'' then ds else d # ds)) #
                       map (\<lambda>pkt. Row (raw_row bo pkt)) (decoded sr (replicate 24 0) evs))
            else None)"
    using l i(7,8,9) by (simp add: lines_of_def get_data_def)
  moreover have "(csv_file self = None) = (\<not> wtf)" using i(9) by simp
  moreover have "full_reads evs \<longrightarrow> packets (replicate 24 0) evs = payloads evs"
    by (simp add: packets_full)
  moreover have "sr \<noteq> 0 \<longrightarrow> length (decoded sr (replicate 24 0) evs) = reads evs"
    by (simp add: decoded_def length_packets)
  ultimately show ?thesis by (intro conjI)
qed

text \<open>
  Claim C10. In every pass that reads from the port with logging enabled, the row
  appended to the file is the time stamp decoded from bytes 0 to 3 of the packet buffer
  followed by the five decoded channel values. The row is the same whatever the timing
  mode \<open>m\<close> and the value \<open>t\<close> of the synthesized clock are: the clock is never written.
  It is appended also when line 253 then raises.
\<close>

theorem C10_row_is_decoded_packet:
  assumes "length (data_packet self) = 24" and "write_to_file self"
  shows "csv_file (after_iter (get_data_iter bo (self\<lparr>time := t, time_from_serial := m\<rparr>) c (Avail bs))) =
           Some (lines_of (csv_file self) @
                 [Row (PyInt (timestamp_of bo (readinto (data_packet self) bs)) #
                       map (\<lambda>i. PyFloat (channel_of bo (readinto (data_packet self) bs) i)) [0..<5])])"
proof -
  let ?self = "self\<lparr>time := t, time_from_serial := m\<rparr>"
  have l: "length (data_packet ?self) = 24" using assms(1) by simp
  show ?thesis
    unfolding get_data_iter_Avail[OF l]
    using assms(2) by (simp add: after_iter_def handled_def Let_def raw_row_def channels_of_def)
qed

text \<open>
  Claim C9. For a non-empty \<^verbatim>\<open>data_set\<close>, the instrument-time mode is on exactly when
  the first name is the string \<^verbatim>\<open>"time (ms)"\<close>; then the name is dropped and there are
  \<^verbatim>\<open>len(data_set) - 1\<close> series. In that mode an emitted tuple is the decoded time stamp
  with the five channel values; with any other first name it is the synthesized time
  with six values, the decoded time stamp being the first of them. (Stated for the first
  pass that emits: \<open>count + 1 = update_rate // sensor_rate\<close>.)
\<close>

theorem C9_time_marker:
  assumes "sr \<noteq> 0" and "c + 1 = ur div sr"
  shows "\<exists>self s. init (d # ds) ur sr ms wtf = Inr self \<and>
           time_from_serial self = (d = ''time (ms)'') \<and>
           num_of_data self = (if d = ''time (ms)'' then length (d # ds) - 1 else length (d # ds)) \<and>
           length (datas_x self) = num_of_data self \<and> length (datas_y self) = num_of_data self \<and>
           get_data_iter bo self c (Avail bs) =
             Inr (s, 0, Some (if d = ''time (ms)''
                              then (timestamp_of bo (readinto (replicate 24 0) bs),
                                    channels_of bo (readinto (replicate 24 0) bs))
                              else (ur, PyInt (timestamp_of bo (readinto (replicate 24 0) bs)) #
                                        channels_of bo (readinto (replicate 24 0) bs))))"
proof -
  obtain self where i: "init (d # ds) ur sr ms wtf = Inr self" by (simp add: init_def Let_def)
  note f = init_fields[OF i]
  have l: "length (data_packet self) = 24" using f(7) by simp
  have x: "length (datas_x self) = num_of_data self" "length (datas_y self) = num_of_data self"
    using i by (auto simp: init_def Let_def)
  have "get_data_iter bo self c (Avail bs) =
             Inr (handled bo self bs, 0, Some (if d = ''time (ms)''
                              then (timestamp_of bo (readinto (replicate 24 0) bs),
                                    channels_of bo (readinto (replicate 24 0) bs))
                              else (ur, PyInt (timestamp_of bo (readinto (replicate 24 0) bs)) #
                                        channels_of bo (readinto (replicate 24 0) bs))))"
    unfolding get_data_iter_Avail[OF l] using assms f
    by (simp add: data_for_def Let_def raw_row_def)
  then show ?thesis using i f(4,5) x by auto
qed

section \<open>Decoding\<close>

lemma slice4:
  assumes "a + 4 \<le> length xs"
  shows "slice a (a + 4) xs = [xs ! a, xs ! (a + 1), xs ! (a + 2), xs ! (a + 3)]"
proof -
  have d: "drop k xs = xs ! k # drop (Suc k) xs" if "k < length xs" for k
    using that by (simp add: Cons_nth_drop_Suc)
  have e: "a + 1 = Suc a" "a + 2 = Suc (Suc a)" "a + 3 = Suc (Suc (Suc a))"
    "a + 4 = Suc (Suc (Suc (Suc a)))" by simp_all
  have "drop a xs = xs ! a # xs ! Suc a # xs ! Suc (Suc a) # xs ! Suc (Suc (Suc a)) #
          drop (Suc (Suc (Suc (Suc a)))) xs"
    using d[of a] d[of "Suc a"] d[of "Suc (Suc a)"] d[of "Suc (Suc (Suc a))"] assms by simp
  moreover have "Suc (Suc (Suc (Suc a))) - a = Suc (Suc (Suc (Suc 0)))" by simp
  ultimately show ?thesis unfolding e slice_def by (simp only: take_Suc_Cons take_0)
qed

lemma int_from_bytes4:
  "int_from_bytes bo [b0, b1, b2, b3] =
     (case bo of
        LittleEndian \<Rightarrow> uint b0 + 256 * uint b1 + 65536 * uint b2 + 16777216 * uint b3
      | BigEndian \<Rightarrow> 16777216 * uint b0 + 65536 * uint b1 + 256 * uint b2 + uint b3)"
  by (cases bo) (simp_all add: int_from_bytes_def)

lemma int_from_bytes_slice:
  "a + 4 \<le> length pkt \<Longrightarrow> int_from_bytes bo (slice a (a + 4) pkt) = native_uint32 bo pkt a"
  by (cases bo) (simp_all add: slice4 int_from_bytes4 native_uint32_def le_uint32_def be_uint32_def)

lemma byte_range: "0 \<le> uint (b::byte) \<and> uint b < 256"
  using uint_lt2p[of b] by simp

lemma native_uint32_range: "0 \<le> native_uint32 bo pkt a \<and> native_uint32 bo pkt a < 4294967296"
proof -
  note r = byte_range[of "pkt ! a"] byte_range[of "pkt ! (a + 1)"]
    byte_range[of "pkt ! (a + 2)"] byte_range[of "pkt ! (a + 3)"]
  show ?thesis using r
    by (cases bo) (simp_all add: native_uint32_def le_uint32_def be_uint32_def)
qed

lemma float32_bits_channel:
  assumes "length pkt = 24" and "i < 5"
  shows "float32_bits (channel_of bo pkt i) = native_uint32 bo pkt (4 + 4 * i)"
proof -
  have e: "8 + 4 * i = (4 + 4 * i) + 4" by simp
  have le: "(4 + 4 * i) + 4 \<le> length pkt" using assms by simp
  have "float32_bits (channel_of bo pkt i) =
          uint (word_of_int (native_uint32 bo pkt (4 + 4 * i)) :: 32 word)"
    unfolding channel_of_def e int_from_bytes_slice[OF le] by (simp add: float32_bits_def)
  also have "\<dots> = native_uint32 bo pkt (4 + 4 * i)"
    using native_uint32_range[of bo pkt "4 + 4 * i"] by (simp add: uint_word_of_int)
  finally show ?thesis .
qed

text \<open>
  Claim C6, as amended. A read of a full 24-byte packet replaces the whole buffer, and
  decoding it is a function of the packet and of the host's byte order alone: bytes 0 to
  3 are read as an unsigned 32-bit integer in the native byte order of the host, which
  is little-endian on a little-endian host, and for every channel \<open>i\<close> from 0 to 4 the
  bits of channel value \<open>i\<close> are bytes \<open>4 + 4 i\<close> to \<open>7 + 4 i\<close> in that same byte order,
  in the declared order of the channels.
\<close>

theorem C6_decode_native_order:
  assumes "length pkt = 24" and "length buf = 24"
  shows "readinto buf pkt = pkt \<and>
         (\<exists>timeStamp floats. unpack_packet bo pkt = Inr (timeStamp, floats) \<and>
            timeStamp = native_uint32 bo pkt 0 \<and> length floats = 5 \<and>
            (\<forall>i<5. float32_bits (floats ! i) = native_uint32 bo pkt (4 + 4 * i)))"
proof -
  have r: "readinto buf pkt = pkt" using assms by (simp add: readinto_full)
  have le: "0 + 4 \<le> length pkt" using assms by simp
  have t: "timestamp_of bo pkt = native_uint32 bo pkt 0"
    using int_from_bytes_slice[OF le, of bo] by (simp add: timestamp_of_def)
  have "\<forall>i<5. float32_bits (map (channel_of bo pkt) [0..<5] ! i) = native_uint32 bo pkt (4 + 4 * i)"
    using float32_bits_channel[OF assms(1)] by simp
  then show ?thesis using r t unpack_packet_24[OF assms(1), of bo] by simp
qed

section \<open>Truncated packets\<close>

lemma frames_short: "length stream < 24 \<Longrightarrow> frames stream = []"
  by (subst frames.simps) simp

lemma frames_long:
  "\<not> length stream < 24 \<Longrightarrow> frames stream = take 24 stream # frames (drop 24 stream)"
  by (subst frames.simps) simp

lemma frames_append_short:
  "24 dvd length stream \<Longrightarrow> length rest < 24 \<Longrightarrow> frames (stream @ rest) = frames stream"
proof (induction stream rule: frames.induct)
  case (1 stream)
  show ?case
  proof (cases "length stream < 24")
    case True
    with "1.prems"(1) have "stream = []" by (auto elim: dvdE)
    then show ?thesis using "1.prems"(2) by (simp add: frames_short)
  next
    case False
    then have d: "24 dvd length (drop 24 stream)" using "1.prems"(1) by (simp add: dvd_diff_nat)
    have "frames (stream @ rest) = take 24 (stream @ rest) # frames (drop 24 (stream @ rest))"
      using False by (intro frames_long) simp
    also have "\<dots> = take 24 stream # frames (drop 24 stream @ rest)" using False by simp
    also have "\<dots> = take 24 stream # frames (drop 24 stream)"
      using "1.IH"[OF False d "1.prems"(2)] by simp
    also have "\<dots> = frames stream" using False by (simp add: frames_long)
    finally show ?thesis .
  qed
qed

lemma frames_straddle:
  "24 dvd length stream \<Longrightarrow> length rest < 24 \<Longrightarrow> length pkt = 24 \<Longrightarrow>
     frames (stream @ rest @ pkt) = frames stream @ [rest @ take (24 - length rest) pkt]"
proof (induction stream rule: frames.induct)
  case (1 stream)
  show ?case
  proof (cases "length stream < 24")
    case True
    with "1.prems"(1) have e: "stream = []" by (auto elim: dvdE)
    have "frames (rest @ pkt) = take 24 (rest @ pkt) # frames (drop 24 (rest @ pkt))"
      using "1.prems"(3) by (intro frames_long) simp
    moreover have "frames (drop 24 (rest @ pkt)) = []"
      using "1.prems"(2,3) by (intro frames_short) simp
    ultimately show ?thesis using e "1.prems"(2) by (simp add: frames_short)
  next
    case False
    then have d: "24 dvd length (drop 24 stream)" using "1.prems"(1) by (simp add: dvd_diff_nat)
    have "frames (stream @ rest @ pkt) =
            take 24 (stream @ rest @ pkt) # frames (drop 24 (stream @ rest @ pkt))"
      using False by (intro frames_long) simp
    also have "\<dots> = take 24 stream # frames (drop 24 stream @ rest @ pkt)" using False by simp
    also have "\<dots> = take 24 stream # frames (drop 24 stream) @ [rest @ take (24 - length rest) pkt]"
      using "1.IH"[OF False d "1.prems"(2,3)] by simp
    also have "\<dots> = frames stream @ [rest @ take (24 - length rest) pkt]"
      using False by (simp add: frames_long)
    finally show ?thesis .
  qed
qed

lemma port_run_Inr:
  "get_data bo self (port_reads stream) = Inr (s, c, outs) \<Longrightarrow>
     \<exists>c'. port_run bo self stream = Inr (s, c', outs)"
  by (simp add: port_run_def)

text \<open>
  Claim C7, as amended. After a stream that ends on a packet boundary, a truncated
  packet (fewer than 24 bytes) raises nothing, appends no row and emits nothing, so
  that no point is added to a series: the run leaves the same object and the same
  emissions as without it, the loop waiting in \<^verbatim>\<open>readinto\<close>, which never returns
  fewer than 24 bytes. A well-formed packet that follows is not processed on its own:
  its first bytes complete the pending read, and the block that is decoded is the
  truncated packet followed by them. (\<open>sensor_rate\<close> is not zero; otherwise line 253
  raises on the first block.)
\<close>

theorem C7_truncated_packet:
  assumes "init data_set ur sr ms wtf = Inr self" and "sr \<noteq> 0"
    and "24 dvd length stream" and "length rest < 24" and "length pkt = 24"
  shows "(\<exists>s c c' outs. port_run bo self stream = Inr (s, c, outs) \<and>
                        port_run bo self (stream @ rest) = Inr (s, c', outs)) \<and>
         port_reads (stream @ rest @ pkt) =
           port_reads stream @ [Avail (rest @ take (24 - length rest) pkt)]"
proof -
  from init_packet[OF assms(1)] assms(2) have f: "length (data_packet self) = 24"
    "sensor_rate self \<noteq> 0" "write_to_file self \<longrightarrow> csv_file self \<noteq> None" by auto
  from loop_log[OF f, of bo 0 "port_reads stream"] obtain s c outs where
    g: "get_data bo self (port_reads stream) = Inr (s, c, outs)"
    unfolding get_data_def by blast
  have e: "port_reads (stream @ rest) = port_reads stream"
    using assms(3,4) by (simp add: port_reads_def frames_append_short)
  from port_run_Inr[OF g] obtain c1 where r1: "port_run bo self stream = Inr (s, c1, outs)"
    by blast
  from port_run_Inr[of bo self "stream @ rest" s c outs] g e
  obtain c2 where r2: "port_run bo self (stream @ rest) = Inr (s, c2, outs)" by auto
  have "port_reads (stream @ rest @ pkt) =
           port_reads stream @ [Avail (rest @ take (24 - length rest) pkt)]"
    using assms(3,4,5) by (simp add: port_reads_def frames_straddle)
  then show ?thesis using r1 r2 by blast
qed

section \<open>Concrete runs\<close>

text \<open>
  With \<open>update_rate = 20\<close> and \<open>sensor_rate = 10\<close> (\<open>K = 2\<close>), of three packets with an idle
  pass in between only the second packet is forwarded.
\<close>

theorem C1_forward_every_Kth_witness:
  "\<exists>self s c outs.
     init [''time (ms)'', ''PT1 (barg)''] 20 10 250 True = Inr self \<and> (1::int) \<le> 20 div 10 \<and>
     get_data LittleEndian self
       [Avail (replicate 24 0), Idle, Avail (replicate 24 0), Avail (replicate 24 0)]
       = Inr (s, c, outs) \<and>
     outs ! 0 = None \<and> outs ! 1 = None \<and> outs ! 2 \<noteq> None \<and> outs ! 3 = None"
proof -
  let ?evs = "[Avail (replicate 24 0), Idle, Avail (replicate 24 0), Avail (replicate 24 0)]"
  obtain self where i: "init [''time (ms)'', ''PT1 (barg)''] 20 10 250 True = Inr self"
    by (simp add: init_def)
  have k: "(1::int) \<le> 20 div 10" by simp
  from C1_forward_every_Kth[OF i k, of LittleEndian ?evs] obtain s c outs where
    g: "get_data LittleEndian self ?evs = Inr (s, c, outs)"
    and h: "\<forall>i<4. (outs ! i \<noteq> None) =
              (is_avail (?evs ! i) \<and> (20 div 10) dvd int (reads (take (Suc i) ?evs)))"
    by auto
  have "outs ! 0 = None"
    using h[rule_format, of 0] by (cases "outs ! 0") (auto simp: is_avail_def)
  moreover have "outs ! 1 = None"
    using h[rule_format, of 1] by (cases "outs ! 1") (auto simp: is_avail_def)
  moreover have "outs ! 2 \<noteq> None"
    using h[rule_format, of 2] by (cases "outs ! 2") (auto simp: is_avail_def)
  moreover have "outs ! 3 = None"
    using h[rule_format, of 3] by (cases "outs ! 3") (auto simp: is_avail_def)
  ultimately show ?thesis using i k g by blast
qed

text \<open>
  Claim C1 as stated fails: with \<open>update_rate = 10 < sensor_rate = 50\<close> the quotient is 0,
  \<^verbatim>\<open>count\<close> is at least 1 when it is compared, and none of three decoded samples is
  forwarded.
\<close>

theorem C1_no_clamp_counterexample:
  "init [''time (ms)'', ''PT1 (barg)''] 10 50 250 False =
     Inr \<lparr>update_rate = 10, sensor_rate = 50, time = 0, time_from_serial = True,
          num_of_data = 1, max_size = 250, data_packet = replicate 24 0, datas_x = [[]],
          datas_y = [[]], write_to_file = False, csv_file = None\<rparr> \<and>
   (10::int) < 50 \<and>
   emitted (get_data LittleEndian
     \<lparr>update_rate = 10, sensor_rate = 50, time = 0, time_from_serial = True,
      num_of_data = 1, max_size = 250, data_packet = replicate 24 0, datas_x = [[]],
      datas_y = [[]], write_to_file = False, csv_file = None\<rparr>
     [Avail (replicate 24 0), Avail (replicate 24 0), Avail (replicate 24 0)])
   = [None, None, None]"
  by code_simp

text \<open>
  Claim C2. The claim has the synthesized clock advance by \<open>update_rate\<close> once for each
  forwarded sample. The code advances it at line 246, in every pass that decodes a
  sample: with \<open>update_rate = 50\<close>, \<open>sensor_rate = 10\<close> and ten packets, the two forwarded
  tuples carry the times 250 and 500, not 50 and 100.
\<close>

theorem C2_clock_advances_per_decoded_sample:
  "init [''PT1 (barg)'', ''PT2 (barg)'', ''FM (g/s)'', ''TC1 (degC)'', ''TC2 (degC)''] 50 10 250 False =
     Inr \<lparr>update_rate = 50, sensor_rate = 10, time = 0, time_from_serial = False,
          num_of_data = 5, max_size = 250, data_packet = replicate 24 0,
          datas_x = [[], [], [], [], []], datas_y = [[], [], [], [], []],
          write_to_file = False, csv_file = None\<rparr> \<and>
   forwarded (emitted (get_data LittleEndian
     \<lparr>update_rate = 50, sensor_rate = 10, time = 0, time_from_serial = False,
      num_of_data = 5, max_size = 250, data_packet = replicate 24 0,
      datas_x = [[], [], [], [], []], datas_y = [[], [], [], [], []],
      write_to_file = False, csv_file = None\<rparr>
     (replicate 10 (Avail (replicate 24 0)))))
   = [(250, [PyInt 0, PyFloat (Float32 0), PyFloat (Float32 0), PyFloat (Float32 0),
             PyFloat (Float32 0), PyFloat (Float32 0)]),
      (500, [PyInt 0, PyFloat (Float32 0), PyFloat (Float32 0), PyFloat (Float32 0),
             PyFloat (Float32 0), PyFloat (Float32 0)])]"
  by code_simp

text \<open>
  Claim C6 as stated fails on a big-endian host: the format \<^verbatim>\<open>'I'\<close> has no byte-order
  prefix, and the packet that starts with the bytes 1, 0, 0, 0 decodes to the time stamp
  16777216, while its little-endian reading is 1.
\<close>

theorem C6_big_endian_counterexample:
  "length (1 # replicate 23 (0::byte)) = 24 \<and>
   unpack_packet BigEndian (1 # replicate 23 0) = Inr (16777216, replicate 5 (Float32 0)) \<and>
   le_uint32 (1 # replicate 23 0) 0 = 1"
  by code_simp

text \<open>
  On a little-endian host, the packet that encodes the time stamp 1000 and the values
  1.23, -4.56, 0.0, 100.0 and 25.5 decodes to 1000 and to the bit patterns of these
  five single-precision numbers.
\<close>

theorem C6_decode_native_order_witness:
  "length [0xE8, 0x03, 0, 0, 0xA4, 0x70, 0x9D, 0x3F, 0x85, 0xEB, 0x91, 0xC0, 0, 0, 0, 0,
           0, 0, 0xC8, 0x42, 0, 0, 0xCC, 0x41 :: byte] = 24 \<and>
   length (replicate 24 (0::byte)) = 24 \<and>
   (\<exists>timeStamp floats.
      unpack_packet LittleEndian
        [0xE8, 0x03, 0, 0, 0xA4, 0x70, 0x9D, 0x3F, 0x85, 0xEB, 0x91, 0xC0, 0, 0, 0, 0,
         0, 0, 0xC8, 0x42, 0, 0, 0xCC, 0x41] = Inr (timeStamp, floats) \<and>
      timeStamp = 1000 \<and>
      map float32_bits floats = [0x3F9D70A4, 0xC091EB85, 0, 0x42C80000, 0x41CC0000])"
proof -
  let ?pkt = "[0xE8, 0x03, 0, 0, 0xA4, 0x70, 0x9D, 0x3F, 0x85, 0xEB, 0x91, 0xC0, 0, 0, 0, 0,
           0, 0, 0xC8, 0x42, 0, 0, 0xCC, 0x41 :: byte]"
  have l: "length ?pkt = 24" by simp
  have b: "length (replicate 24 (0::byte)) = 24" by simp
  from C6_decode_native_order[OF l b, of LittleEndian] obtain timeStamp floats where
    u: "unpack_packet LittleEndian ?pkt = Inr (timeStamp, floats)"
    and t: "timeStamp = native_uint32 LittleEndian ?pkt 0" and n: "length floats = 5"
    and f: "\<forall>i<5. float32_bits (floats ! i) = native_uint32 LittleEndian ?pkt (4 + 4 * i)"
    by blast
  have t': "native_uint32 LittleEndian ?pkt 0 = 1000" by code_simp
  have "map float32_bits floats = map (\<lambda>i. native_uint32 LittleEndian ?pkt (4 + 4 * i)) [0..<5]"
    using n f by (intro nth_equalityI) simp_all
  also have "\<dots> = [0x3F9D70A4, 0xC091EB85, 0, 0x42C80000, 0x41CC0000]" by code_simp
  finally have m: "map float32_bits floats = [0x3F9D70A4, 0xC091EB85, 0, 0x42C80000, 0x41CC0000]" .
  have ts: "timeStamp = 1000" using t t' by simp
  have "\<exists>timeStamp floats.
      unpack_packet LittleEndian ?pkt = Inr (timeStamp, floats) \<and>
      timeStamp = 1000 \<and>
      map float32_bits floats = [0x3F9D70A4, 0xC091EB85, 0, 0x42C80000, 0x41CC0000]"
    using u ts m by (intro exI[of _ timeStamp] exI[of _ floats] conjI)
  then show ?thesis using l b by (intro conjI)
qed

text \<open>
  Claim C7 as stated fails in its last part: after a truncated packet of three bytes, the
  well-formed packet with the time stamp 7 is not processed correctly. The row that is
  written and the tuple that is emitted carry the time stamp 117637633, read from the
  three stray bytes and the first byte of the packet.
\<close>

theorem C7_misframed_counterexample:
  "init [''time (ms)'', ''PT1 (barg)''] 10 10 250 True =
     Inr \<lparr>update_rate = 10, sensor_rate = 10, time = 0, time_from_serial = True,
          num_of_data = 1, max_size = 250, data_packet = replicate 24 0, datas_x = [[]],
          datas_y = [[]], write_to_file = True,
          csv_file = Some [Names [''time'', ''PT1 (barg)'']]\<rparr> \<and>
   length [1, 2, 3 :: byte] < 24 \<and> length (7 # replicate 23 (0::byte)) = 24 \<and>
   raw_row LittleEndian (7 # replicate 23 0) =
     [PyInt 7, PyFloat (Float32 0), PyFloat (Float32 0), PyFloat (Float32 0),
      PyFloat (Float32 0), PyFloat (Float32 0)] \<and>
   csv_file (after_run (port_run LittleEndian
     \<lparr>update_rate = 10, sensor_rate = 10, time = 0, time_from_serial = True,
      num_of_data = 1, max_size = 250, data_packet = replicate 24 0, datas_x = [[]],
      datas_y = [[]], write_to_file = True,
      csv_file = Some [Names [''time'', ''PT1 (barg)'']]\<rparr>
     ([1, 2, 3] @ 7 # replicate 23 0)))
   = Some [Names [''time'', ''PT1 (barg)''],
           Row [PyInt 117637633, PyFloat (Float32 0), PyFloat (Float32 0), PyFloat (Float32 0),
                PyFloat (Float32 0), PyFloat (Float32 0)]] \<and>
   forwarded (emitted (port_run LittleEndian
     \<lparr>update_rate = 10, sensor_rate = 10, time = 0, time_from_serial = True,
      num_of_data = 1, max_size = 250, data_packet = replicate 24 0, datas_x = [[]],
      datas_y = [[]], write_to_file = True,
      csv_file = Some [Names [''time'', ''PT1 (barg)'']]\<rparr>
     ([1, 2, 3] @ 7 # replicate 23 0)))
   = [(117637633, [PyFloat (Float32 0), PyFloat (Float32 0), PyFloat (Float32 0),
                   PyFloat (Float32 0), PyFloat (Float32 0)])]"
  by code_simp

text \<open>
  A full packet, then three stray bytes: the same object and emissions as after the full
  packet alone. With a further full packet the second read returns the three bytes and
  the first 21 bytes of that packet.
\<close>

theorem C7_truncated_packet_witness:
  "\<exists>self s c c' outs.
     init [''time (ms)'', ''PT1 (barg)''] 10 10 250 True = Inr self \<and> (10::int) \<noteq> 0 \<and>
     24 dvd length (5 # replicate 23 (0::byte)) \<and> length [1, 2, 3 :: byte] < 24 \<and>
     length (7 # replicate 23 (0::byte)) = 24 \<and>
     port_run LittleEndian self (5 # replicate 23 0) = Inr (s, c, outs) \<and>
     port_run LittleEndian self ((5 # replicate 23 0) @ [1, 2, 3]) = Inr (s, c', outs) \<and>
     port_reads ((5 # replicate 23 0) @ [1, 2, 3] @ 7 # replicate 23 0) =
       [Avail (5 # replicate 23 0), Avail ([1, 2, 3, 7] @ replicate 20 0)]"
proof -
  obtain self where i: "init [''time (ms)'', ''PT1 (barg)''] 10 10 250 True = Inr self"
    by (simp add: init_def)
  have h: "(10::int) \<noteq> 0" "24 dvd length (5 # replicate 23 (0::byte))"
    "length [1, 2, 3 :: byte] < 24" "length (7 # replicate 23 (0::byte)) = 24"
    by simp_all
  from C7_truncated_packet[OF i h, of LittleEndian] obtain s c c' outs where
    r: "port_run LittleEndian self (5 # replicate 23 0) = Inr (s, c, outs)"
       "port_run LittleEndian self ((5 # replicate 23 0) @ [1, 2, 3]) = Inr (s, c', outs)"
    and p: "port_reads ((5 # replicate 23 0) @ [1, 2, 3] @ 7 # replicate 23 0) =
           port_reads (5 # replicate 23 0) @
             [Avail ([1, 2, 3] @ take (24 - length [1, 2, 3 :: byte]) (7 # replicate 23 0))]"
    by blast
  have e: "port_reads (5 # replicate 23 0) @
             [Avail ([1, 2, 3] @ take (24 - length [1, 2, 3 :: byte]) (7 # replicate 23 0))] =
           [Avail (5 # replicate 23 0), Avail ([1, 2, 3, 7] @ replicate 20 0)]"
    by code_simp
  show ?thesis using i h r p[unfolded e] by blast
qed

text \<open>
  Claim C5 as stated fails. With six names after the marker the program pushes five
  values: six x arrays and five y arrays remain. A push whose time is \<open>10^312\<close> raises
  \<^verbatim>\<open>OverflowError\<close> after the y arrays were extended and before the x arrays are:
  every y array is one longer than its x array.
\<close>

theorem C5_misaligned_counterexample:
  "init [''time (ms)'', ''PT1'', ''PT2'', ''FM'', ''TC1'', ''TC2'', ''spare''] 50 10 250 False =
     Inr \<lparr>update_rate = 50, sensor_rate = 10, time = 0, time_from_serial = True,
          num_of_data = 6, max_size = 250, data_packet = replicate 24 0,
          datas_x = [[], [], [], [], [], []], datas_y = [[], [], [], [], [], []],
          write_to_file = False, csv_file = None\<rparr> \<and>
   map length (datas_x (final (pushes
     \<lparr>update_rate = 50, sensor_rate = 10, time = 0, time_from_serial = True,
      num_of_data = 6, max_size = 250, data_packet = replicate 24 0,
      datas_x = [[], [], [], [], [], []], datas_y = [[], [], [], [], [], []],
      write_to_file = False, csv_file = None\<rparr>
     [(10, [PyFloat (Float32 1), PyFloat (Float32 2), PyFloat (Float32 3),
            PyFloat (Float32 4), PyFloat (Float32 5)])]))) = [1, 1, 1, 1, 1, 1] \<and>
   map length (datas_y (final (pushes
     \<lparr>update_rate = 50, sensor_rate = 10, time = 0, time_from_serial = True,
      num_of_data = 6, max_size = 250, data_packet = replicate 24 0,
      datas_x = [[], [], [], [], [], []], datas_y = [[], [], [], [], [], []],
      write_to_file = False, csv_file = None\<rparr>
     [(10, [PyFloat (Float32 1), PyFloat (Float32 2), PyFloat (Float32 3),
            PyFloat (Float32 4), PyFloat (Float32 5)])]))) = [1, 1, 1, 1, 1] \<and>
   map length (datas_x (final (pushes
     \<lparr>update_rate = 50, sensor_rate = 10, time = 0, time_from_serial = True,
      num_of_data = 6, max_size = 250, data_packet = replicate 24 0,
      datas_x = [[], [], [], [], [], []], datas_y = [[], [], [], [], [], []],
      write_to_file = False, csv_file = None\<rparr>
     [(10 ^ 312, [PyFloat (Float32 1), PyFloat (Float32 2), PyFloat (Float32 3),
                  PyFloat (Float32 4), PyFloat (Float32 5), PyFloat (Float32 6)])]))) =
     [0, 0, 0, 0, 0, 0] \<and>
   map length (datas_y (final (pushes
     \<lparr>update_rate = 50, sensor_rate = 10, time = 0, time_from_serial = True,
      num_of_data = 6, max_size = 250, data_packet = replicate 24 0,
      datas_x = [[], [], [], [], [], []], datas_y = [[], [], [], [], [], []],
      write_to_file = False, csv_file = None\<rparr>
     [(10 ^ 312, [PyFloat (Float32 1), PyFloat (Float32 2), PyFloat (Float32 3),
                  PyFloat (Float32 4), PyFloat (Float32 5), PyFloat (Float32 6)])]))) =
     [1, 1, 1, 1, 1, 1]"
  by code_simp

text \<open>
  Two packets with an idle pass in between, \<open>update_rate = 50\<close> and \<open>sensor_rate = 10\<close>:
  nothing is forwarded, and the file is the header and the two rows in the order of
  arrival.
\<close>

theorem C8_log_every_sample_in_order_witness:
  "\<exists>self.
     init [''time (ms)'', ''PT1 (barg)''] 50 10 250 True = Inr self \<and>
     csv_file self \<noteq> None \<and>
     full_reads [Avail (1 # replicate 23 0), Idle, Avail (2 # replicate 23 0)] \<and>
     csv_file (after_run (get_data LittleEndian self
        [Avail (1 # replicate 23 0), Idle, Avail (2 # replicate 23 0)])) =
       Some [Names [''time'', ''PT1 (barg)''],
             Row [PyInt 1, PyFloat (Float32 0), PyFloat (Float32 0), PyFloat (Float32 0),
                  PyFloat (Float32 0), PyFloat (Float32 0)],
             Row [PyInt 2, PyFloat (Float32 0), PyFloat (Float32 0), PyFloat (Float32 0),
                  PyFloat (Float32 0), PyFloat (Float32 0)]]"
proof -
  let ?evs = "[Avail (1 # replicate 23 0), Idle, Avail (2 # replicate 23 0)]"
  obtain self where i: "init [''time (ms)'', ''PT1 (barg)''] 50 10 250 True = Inr self"
    by (simp add: init_def)
  from C8_log_every_sample_in_order[OF i, of LittleEndian ?evs] have
    n: "(csv_file self = None) = (\<not> True)"
    and l: "csv_file (after_run (get_data LittleEndian self ?evs)) =
              Some (Names [''time'', ''PT1 (barg)''] #
                    map (\<lambda>pkt. Row (raw_row LittleEndian pkt)) (decoded 10 (replicate 24 0) ?evs))"
    by simp_all
  have fe: "full_reads ?evs" by code_simp
  have m: "map (\<lambda>pkt. Row (raw_row LittleEndian pkt)) (decoded 10 (replicate 24 0) ?evs) =
            [Row [PyInt 1, PyFloat (Float32 0), PyFloat (Float32 0), PyFloat (Float32 0),
                  PyFloat (Float32 0), PyFloat (Float32 0)],
             Row [PyInt 2, PyFloat (Float32 0), PyFloat (Float32 0), PyFloat (Float32 0),
                  PyFloat (Float32 0), PyFloat (Float32 0)]]"
    by code_simp
  have c: "csv_file (after_run (get_data LittleEndian self ?evs)) =
       Some [Names [''time'', ''PT1 (barg)''],
             Row [PyInt 1, PyFloat (Float32 0), PyFloat (Float32 0), PyFloat (Float32 0),
                  PyFloat (Float32 0), PyFloat (Float32 0)],
             Row [PyInt 2, PyFloat (Float32 0), PyFloat (Float32 0), PyFloat (Float32 0),
                  PyFloat (Float32 0), PyFloat (Float32 0)]]"
    using l unfolding m .
  have "csv_file self \<noteq> None" using n by simp
  then show ?thesis using i fe c by (intro exI[of _ self] conjI)
qed

text \<open>
  The first name \<^verbatim>\<open>"time"\<close> is not the marker: two series, host-synthesized time, and the
  decoded time stamp 7 is the first of six values.
\<close>

theorem C9_time_marker_witness:
  "(10::int) \<noteq> 0 \<and> (0::int) + 1 = 10 div 10 \<and>
   (\<exists>self s. init [''time'', ''PT1 (barg)''] 10 10 250 True = Inr self \<and>
      \<not> time_from_serial self \<and> num_of_data self = 2 \<and>
      get_data_iter LittleEndian self 0 (Avail (7 # replicate 23 0)) =
        Inr (s, 0, Some (10, [PyInt 7, PyFloat (Float32 0), PyFloat (Float32 0),
                              PyFloat (Float32 0), PyFloat (Float32 0), PyFloat (Float32 0)])))"
proof -
  have k: "(10::int) \<noteq> 0" "(0::int) + 1 = 10 div 10" by simp_all
  from C9_time_marker[OF k, of "''time''" "[''PT1 (barg)'']" 250 True LittleEndian
      "7 # replicate 23 0"]
  obtain self s where i: "init [''time'', ''PT1 (barg)''] 10 10 250 True = Inr self"
    and t: "time_from_serial self = (''time'' = ''time (ms)'')"
    and n: "num_of_data self = (if ''time'' = ''time (ms)'' then length [''time'', ''PT1 (barg)''] - 1
                                else length [''time'', ''PT1 (barg)''])"
    and g: "get_data_iter LittleEndian self 0 (Avail (7 # replicate 23 0)) =
             Inr (s, 0, Some (if ''time'' = ''time (ms)''
                              then (timestamp_of LittleEndian (readinto (replicate 24 0) (7 # replicate 23 0)),
                                    channels_of LittleEndian (readinto (replicate 24 0) (7 # replicate 23 0)))
                              else (10, PyInt (timestamp_of LittleEndian (readinto (replicate 24 0) (7 # replicate 23 0))) #
                                        channels_of LittleEndian (readinto (replicate 24 0) (7 # replicate 23 0)))))"
    by blast
  have e: "(if ''time'' = ''time (ms)''
            then (timestamp_of LittleEndian (readinto (replicate 24 0) (7 # replicate 23 0)),
                  channels_of LittleEndian (readinto (replicate 24 0) (7 # replicate 23 0)))
            else (10, PyInt (timestamp_of LittleEndian (readinto (replicate 24 0) (7 # replicate 23 0))) #
                      channels_of LittleEndian (readinto (replicate 24 0) (7 # replicate 23 0))))
          = (10, [PyInt 7, PyFloat (Float32 0), PyFloat (Float32 0),
                  PyFloat (Float32 0), PyFloat (Float32 0), PyFloat (Float32 0)])"
    by code_simp
  have "\<not> time_from_serial self" using t by simp
  moreover have "num_of_data self = 2" using n by simp
  moreover have "get_data_iter LittleEndian self 0 (Avail (7 # replicate 23 0)) =
        Inr (s, 0, Some (10, [PyInt 7, PyFloat (Float32 0), PyFloat (Float32 0),
                              PyFloat (Float32 0), PyFloat (Float32 0), PyFloat (Float32 0)]))"
    using g unfolding e .
  ultimately have "\<exists>self s. init [''time'', ''PT1 (barg)''] 10 10 250 True = Inr self \<and>
      \<not> time_from_serial self \<and> num_of_data self = 2 \<and>
      get_data_iter LittleEndian self 0 (Avail (7 # replicate 23 0)) =
        Inr (s, 0, Some (10, [PyInt 7, PyFloat (Float32 0), PyFloat (Float32 0),
                              PyFloat (Float32 0), PyFloat (Float32 0), PyFloat (Float32 0)]))"
    using i by (intro exI[of _ self] exI[of _ s] conjI)
  then show ?thesis using k by (intro conjI)
qed

text \<open>
  In host-synthesized mode with the clock at 4000, the row of the packet with the time
  stamp 7 starts with 7; neither 4000 nor 4050 is written.
\<close>

theorem C10_row_is_decoded_packet_witness:
  "\<exists>self. init [''PT1 (barg)''] 50 10 250 True = Inr self \<and>
     length (data_packet self) = 24 \<and> write_to_file self \<and>
     csv_file (after_iter (get_data_iter LittleEndian (self\<lparr>time := 4000, time_from_serial := False\<rparr>) 0
                 (Avail (7 # replicate 23 0)))) =
       Some [Names [''time'', ''PT1 (barg)''],
             Row [PyInt 7, PyFloat (Float32 0), PyFloat (Float32 0), PyFloat (Float32 0),
                  PyFloat (Float32 0), PyFloat (Float32 0)]]"
proof -
  obtain self where i: "init [''PT1 (barg)''] 50 10 250 True = Inr self"
    by (simp add: init_def)
  note f = init_fields[OF i]
  have h: "length (data_packet self) = 24" "write_to_file self" using f by simp_all
  have e: "map (\<lambda>i. PyFloat (channel_of LittleEndian (readinto (replicate 24 0) (7 # replicate 23 0)) i)) [0..<5]
           = [PyFloat (Float32 0), PyFloat (Float32 0), PyFloat (Float32 0),
              PyFloat (Float32 0), PyFloat (Float32 0)]"
    "timestamp_of LittleEndian (readinto (replicate 24 0) (7 # replicate 23 0)) = 7"
    by code_simp+
  from C10_row_is_decoded_packet[OF h, where bo = LittleEndian and t = 4000 and m = False
      and c = 0 and bs = "7 # replicate 23 0"]
  have "csv_file (after_iter (get_data_iter LittleEndian (self\<lparr>time := 4000, time_from_serial := False\<rparr>) 0
                 (Avail (7 # replicate 23 0)))) =
       Some [Names [''time'', ''PT1 (barg)''],
             Row [PyInt 7, PyFloat (Float32 0), PyFloat (Float32 0), PyFloat (Float32 0),
                  PyFloat (Float32 0), PyFloat (Float32 0)]]"
    unfolding f(7) e using f(9) by (simp add: lines_of_def)
  then show ?thesis using i h by (intro exI[of _ self] conjI)
qed

end
